theory Spec2Isabelle
  imports Complex_Main
begin

section \<open>Binary floating point, round to nearest, ties to even\<close>

text \<open>
  The program \<^verbatim>\<open>hw1d.cpp\<close> declares two \<^verbatim>\<open>float\<close> and two \<^verbatim>\<open>double\<close>
  accumulators.  Its specification fixes their meaning as IEEE-754 arithmetic (binary32 and
  binary64), which is modelled here exactly: a finite value is a pair of an integer significand
  \<open>m\<close> and the exponent \<open>e\<close> of its last place, standing for \<open>m * 2 ^ e\<close>, kept in the
  normal form of its format (zero is \<open>Finite 0 0\<close>); every operation computes the exact
  result as a ratio of integers and rounds it once, to nearest, ties to even (the default
  rounding mode, which the program never changes).  Each expression is evaluated in the
  precision of its type (no excess precision).  The sign of a zero is not recorded.
\<close>

record fmt =
  prec :: nat
  emax :: int

definition binary32 :: fmt where
  "binary32 = \<lparr>prec = 24, emax = 127\<rparr>"

definition binary64 :: fmt where
  "binary64 = \<lparr>prec = 53, emax = 1023\<rparr>"

definition elow :: "fmt \<Rightarrow> int" where
  \<comment> \<open>the exponent of the last place of the subnormal numbers and of zero\<close>
  "elow fm = 1 - emax fm - (int (prec fm) - 1)"

definition ehigh :: "fmt \<Rightarrow> int" where
  \<comment> \<open>the exponent of the last place of the largest finite numbers\<close>
  "ehigh fm = emax fm - (int (prec fm) - 1)"

datatype fp = Finite int int | Infinity bool | NaN

function bitlen :: "int \<Rightarrow> int" where
  "bitlen n = (if n \<le> 0 then 0 else 1 + bitlen (n div 2))"
  by pat_completeness auto
termination
  by (relation "measure nat") auto

declare bitlen.simps [simp del]

definition ilog2 :: "int \<Rightarrow> int \<Rightarrow> int" where
  \<comment> \<open>\<open>\<lfloor>log\<^sub>2 (a / b)\<rfloor>\<close> for positive \<open>a\<close> and \<open>b\<close>\<close>
  "ilog2 a b =
     (let l = bitlen a - bitlen b
      in if (if 0 \<le> l then b * 2 ^ nat l \<le> a else b \<le> a * 2 ^ nat (- l)) then l else l - 1)"

definition round_even :: "int \<Rightarrow> int \<Rightarrow> int" where
  \<comment> \<open>the integer nearest to \<open>n / d\<close> (\<open>0 \<le> n\<close>, \<open>0 < d\<close>), the even one at a tie\<close>
  "round_even n d =
     (let q = n div d; r = n mod d
      in if 2 * r < d then q else if d < 2 * r then q + 1 else if even q then q else q + 1)"

definition fround :: "fmt \<Rightarrow> int \<Rightarrow> int \<Rightarrow> fp" where
  \<comment> \<open>the exact ratio \<open>a / b\<close> (\<open>0 < b\<close>) rounded into the format\<close>
  "fround fm a b =
     (if a = 0 then Finite 0 0
      else
        let e = max (ilog2 \<bar>a\<bar> b - (int (prec fm) - 1)) (elow fm);
            m = (if 0 \<le> e then round_even \<bar>a\<bar> (b * 2 ^ nat e)
                 else round_even (\<bar>a\<bar> * 2 ^ nat (- e)) b);
            e' = (if m = 2 ^ prec fm then e + 1 else e);
            m' = (if m = 2 ^ prec fm then 2 ^ (prec fm - 1) else m)
        in if m' = 0 then Finite 0 0
           else if ehigh fm < e' then Infinity (a < 0)
           else Finite (sgn a * m') e')"

definition fround_dy :: "fmt \<Rightarrow> int \<Rightarrow> int \<Rightarrow> fp" where
  \<comment> \<open>the exact dyadic number \<open>m * 2 ^ e\<close> rounded into the format\<close>
  "fround_dy fm m e = (if 0 \<le> e then fround fm (m * 2 ^ nat e) 1 else fround fm m (2 ^ nat (- e)))"

fun fcvt :: "fmt \<Rightarrow> fp \<Rightarrow> fp" where
  \<comment> \<open>conversion between formats: \<^verbatim>\<open>float\<close> to \<^verbatim>\<open>double\<close> and back\<close>
  "fcvt fm (Finite m e) = fround_dy fm m e"
| "fcvt fm (Infinity s) = Infinity s"
| "fcvt fm NaN = NaN"

definition fp_of_int :: "fmt \<Rightarrow> int \<Rightarrow> fp" where
  "fp_of_int fm i = fround fm i 1"

fun fneg :: "fp \<Rightarrow> fp" where
  "fneg (Finite m e) = Finite (- m) e"
| "fneg (Infinity s) = Infinity (\<not> s)"
| "fneg NaN = NaN"

fun fadd :: "fmt \<Rightarrow> fp \<Rightarrow> fp \<Rightarrow> fp" where
  "fadd fm (Finite m1 e1) (Finite m2 e2) =
     (let e = min e1 e2 in fround_dy fm (m1 * 2 ^ nat (e1 - e) + m2 * 2 ^ nat (e2 - e)) e)"
| "fadd fm NaN y = NaN"
| "fadd fm x NaN = NaN"
| "fadd fm (Infinity s) (Infinity t) = (if s = t then Infinity s else NaN)"
| "fadd fm (Infinity s) (Finite m e) = Infinity s"
| "fadd fm (Finite m e) (Infinity t) = Infinity t"

definition fsub :: "fmt \<Rightarrow> fp \<Rightarrow> fp \<Rightarrow> fp" where
  "fsub fm x y = fadd fm x (fneg y)"

fun fdiv :: "fmt \<Rightarrow> fp \<Rightarrow> fp \<Rightarrow> fp" where
  "fdiv fm (Finite m1 e1) (Finite m2 e2) =
     (if m2 = 0 then (if m1 = 0 then NaN else Infinity (m1 < 0))
      else let e = min e1 e2
           in fround fm (sgn m2 * m1 * 2 ^ nat (e1 - e)) (\<bar>m2\<bar> * 2 ^ nat (e2 - e)))"
| "fdiv fm NaN y = NaN"
| "fdiv fm x NaN = NaN"
| "fdiv fm (Infinity s) (Infinity t) = NaN"
| "fdiv fm (Infinity s) (Finite m e) = Infinity (s \<noteq> (m < 0))"
| "fdiv fm (Finite m e) (Infinity t) = Finite 0 0"

fun valof :: "fp \<Rightarrow> rat option" where
  \<comment> \<open>the number a finite value stands for\<close>
  "valof (Finite m e) = Some (if 0 \<le> e then of_int (m * 2 ^ nat e) else of_int m / of_int (2 ^ nat (- e)))"
| "valof (Infinity s) = None"
| "valof NaN = None"

section \<open>The program\<close>

text \<open>
  The loop variable is an \<^verbatim>\<open>int\<close>; it is modelled by an unbounded integer, which is exact:
  \<^verbatim>\<open>i++\<close> is reached only with \<open>i < 101\<close> and \<^verbatim>\<open>i--\<close> only with \<open>i > 0\<close>, so neither
  overflows.  Dividing by zero is undefined in C++ and is the one way a statement of the
  program can fail; it is the error value of the model.
\<close>

datatype error = DivisionByZero

record vars =
  f1 :: fp
  f2 :: fp
  dub1 :: fp
  dub2 :: fp

definition recip :: "int \<Rightarrow> error + fp" where
  \<comment> \<open>the expression \<^verbatim>\<open>1.0 / i\<close>: a \<^verbatim>\<open>double\<close> literal divided by an \<^verbatim>\<open>int\<close> converted to \<^verbatim>\<open>double\<close>\<close>
  "recip i =
     (if i = 0 then Inl DivisionByZero
      else Inr (fdiv binary64 (fp_of_int binary64 1) (fp_of_int binary64 i)))"

definition add_float :: "fp \<Rightarrow> int \<Rightarrow> error + fp" where
  \<comment> \<open>\<^verbatim>\<open>f += 1.0 / i\<close> for a \<^verbatim>\<open>float f\<close>: the sum is a \<^verbatim>\<open>double\<close>, converted on assignment\<close>
  "add_float f i =
     (case recip i of
        Inl err \<Rightarrow> Inl err
      | Inr t \<Rightarrow> Inr (fcvt binary32 (fadd binary64 (fcvt binary64 f) t)))"

definition add_double :: "fp \<Rightarrow> int \<Rightarrow> error + fp" where
  \<comment> \<open>\<^verbatim>\<open>dub += 1.0 / i\<close> for a \<^verbatim>\<open>double dub\<close>\<close>
  "add_double d i =
     (case recip i of
        Inl err \<Rightarrow> Inl err
      | Inr t \<Rightarrow> Inr (fadd binary64 d t))"

definition fwd_body :: "int \<Rightarrow> vars \<Rightarrow> error + vars" where
  "fwd_body i s =
     (case add_float (f1 s) i of
        Inl err \<Rightarrow> Inl err
      | Inr x \<Rightarrow>
          (case add_double (dub1 s) i of
             Inl err \<Rightarrow> Inl err
           | Inr y \<Rightarrow> Inr (s\<lparr>f1 := x, dub1 := y\<rparr>)))"

definition bwd_body :: "int \<Rightarrow> vars \<Rightarrow> error + vars" where
  "bwd_body i s =
     (case add_float (f2 s) i of
        Inl err \<Rightarrow> Inl err
      | Inr x \<Rightarrow>
          (case add_double (dub2 s) i of
             Inl err \<Rightarrow> Inl err
           | Inr y \<Rightarrow> Inr (s\<lparr>f2 := x, dub2 := y\<rparr>)))"

function loop_up :: "(int \<Rightarrow> 's \<Rightarrow> error + 's) \<Rightarrow> int \<Rightarrow> 's \<Rightarrow> error + 's" where
  \<comment> \<open>\<^verbatim>\<open>for (int i = ...; i < 101; i++) body\<close>, entered with the loop variable at \<open>i\<close>\<close>
  "loop_up body i s =
     (if i < 101
      then (case body i s of Inl err \<Rightarrow> Inl err | Inr s' \<Rightarrow> loop_up body (i + 1) s')
      else Inr s)"
  by pat_completeness auto
termination
  by (relation "measure (\<lambda>(body, i, s). nat (101 - i))") auto

function loop_down :: "(int \<Rightarrow> 's \<Rightarrow> error + 's) \<Rightarrow> int \<Rightarrow> 's \<Rightarrow> error + 's" where
  \<comment> \<open>\<^verbatim>\<open>for (int i = ...; i > 0; i--) body\<close>, entered with the loop variable at \<open>i\<close>\<close>
  "loop_down body i s =
     (if i > 0
      then (case body i s of Inl err \<Rightarrow> Inl err | Inr s' \<Rightarrow> loop_down body (i - 1) s')
      else Inr s)"
  by pat_completeness auto
termination
  by (relation "measure (\<lambda>(body, i, s). nat i)") auto

declare loop_up.simps [simp del] loop_down.simps [simp del]

definition init :: vars where
  \<comment> \<open>the four declarations; the literal \<^verbatim>\<open>0.0\<close> is a \<^verbatim>\<open>double\<close>\<close>
  "init = \<lparr>f1 = fcvt binary32 (fp_of_int binary64 0), f2 = fcvt binary32 (fp_of_int binary64 0),
           dub1 = fp_of_int binary64 0, dub2 = fp_of_int binary64 0\<rparr>"

definition run_loops :: "error + vars" where
  \<comment> \<open>the two loops of \<^verbatim>\<open>main\<close>, in program order\<close>
  "run_loops =
     (case loop_up fwd_body 1 init of
        Inl err \<Rightarrow> Inl err
      | Inr s \<Rightarrow> loop_down bwd_body 100 s)"

section \<open>Output\<close>

text \<open>
  \<^verbatim>\<open>cout << x\<close> for a \<^verbatim>\<open>float\<close> or a \<^verbatim>\<open>double\<close>, with the stream's default settings:
  the conversion \<^verbatim>\<open>%g\<close> with precision 6.  The value is rounded (to nearest, ties to even,
  from its exact value) to six significant decimal digits; with \<open>x\<close> the decimal exponent of
  the rounded value, the fixed notation is used when \<open>-4 \<le> x < 6\<close> and the scientific
  notation otherwise, and the trailing zeros of the fraction are dropped.
\<close>

function up10 :: "int \<Rightarrow> int \<Rightarrow> int" where
  \<comment> \<open>\<open>\<lfloor>log\<^sub>1\<^sub>0 (a / b)\<rfloor>\<close> for \<open>0 < b \<le> a\<close>\<close>
  "up10 a b = (if b \<le> 0 \<or> a < 10 * b then 0 else 1 + up10 a (10 * b))"
  by pat_completeness auto
termination
  by (relation "measure (\<lambda>(a, b). nat (a - b))") auto

function down10 :: "int \<Rightarrow> int \<Rightarrow> int" where
  \<comment> \<open>\<open>- \<lfloor>log\<^sub>1\<^sub>0 (a / b)\<rfloor>\<close> for \<open>0 < a < b\<close>\<close>
  "down10 a b = (if a \<le> 0 \<or> b \<le> a then 0 else 1 + down10 (10 * a) b)"
  by pat_completeness auto
termination
  by (relation "measure (\<lambda>(a, b). nat (b - a))") auto

declare up10.simps [simp del] down10.simps [simp del]

definition dig :: "int \<Rightarrow> char" where
  "dig d = ''0123456789'' ! nat (d mod 10)"

function show_nat :: "int \<Rightarrow> string" where
  \<comment> \<open>the decimal digits of a non-negative integer\<close>
  "show_nat n = (if n < 10 then [dig n] else show_nat (n div 10) @ [dig n])"
  by pat_completeness auto
termination
  by (relation "measure nat") auto

declare show_nat.simps [simp del]

fun strip_zeros :: "string \<Rightarrow> string" where
  \<comment> \<open>a fraction without its trailing zeros\<close>
  "strip_zeros [] = []"
| "strip_zeros (c # cs) =
     (let r = strip_zeros cs in if r = [] \<and> c = CHR ''0'' then [] else c # r)"

definition with_point :: "string \<Rightarrow> string \<Rightarrow> string" where
  \<comment> \<open>the decimal point is written only before a fraction that is not empty\<close>
  "with_point ip fr = (let fr' = strip_zeros fr in if fr' = [] then ip else ip @ ''.'' @ fr')"

definition show_g_pos :: "int \<Rightarrow> int \<Rightarrow> string" where
  \<comment> \<open>\<^verbatim>\<open>%g\<close> of the positive number \<open>a / b\<close>\<close>
  "show_g_pos a b =
     (let x0 = (if b \<le> a then up10 a b else - down10 a b);
          d0 = (if x0 \<le> 5 then round_even (a * 10 ^ nat (5 - x0)) b
                else round_even a (b * 10 ^ nat (x0 - 5)));
          d = (if d0 = 1000000 then 100000 else d0);
          x = (if d0 = 1000000 then x0 + 1 else x0);
          ds = show_nat d
      in if - 4 \<le> x \<and> x < 6
         then (if 0 \<le> x then with_point (take (nat (x + 1)) ds) (drop (nat (x + 1)) ds)
               else with_point ''0'' (replicate (nat (- x - 1)) CHR ''0'' @ ds))
         else with_point (take 1 ds) (drop 1 ds) @ ''e'' @ (if x < 0 then ''-'' else ''+'') @
              (if \<bar>x\<bar> < 10 then ''0'' else []) @ show_nat \<bar>x\<bar>)"

fun show_g :: "fp \<Rightarrow> string" where
  "show_g (Finite m e) =
     (if m = 0 then ''0''
      else (if m < 0 then ''-'' else []) @
           (if 0 \<le> e then show_g_pos (\<bar>m\<bar> * 2 ^ nat e) 1 else show_g_pos \<bar>m\<bar> (2 ^ nat (- e))))"
| "show_g (Infinity s) = (if s then ''-inf'' else ''inf'')"
| "show_g NaN = ''nan''"

definition endl :: string where
  "endl = [CHR 0x0A]"

definition report :: "vars \<Rightarrow> string" where
  \<comment> \<open>the four output statements; \<^verbatim>\<open>f1 - f2\<close> is a \<^verbatim>\<open>float\<close>, \<^verbatim>\<open>dub1 - dub2\<close> a \<^verbatim>\<open>double\<close>\<close>
  "report s =
     ''Float forward: '' @ show_g (f1 s) @ '', Float backward: '' @ show_g (f2 s) @ endl @
     ''Double forward: '' @ show_g (dub1 s) @ '', Double backward: '' @ show_g (dub2 s) @ endl @
     ''Float difference: '' @ show_g (fsub binary32 (f1 s) (f2 s)) @ endl @
     ''Double difference: '' @ show_g (fsub binary64 (dub1 s) (dub2 s)) @ endl"

definition main :: "error + int \<times> string" where
  \<comment> \<open>the exit status and the text written to standard output\<close>
  "main =
     (case run_loops of
        Inl err \<Rightarrow> Inl err
      | Inr s \<Rightarrow> Inr (0, report s))"

section \<open>Execution as a transition system\<close>

text \<open>
  The control flow of \<^verbatim>\<open>main\<close>, one transition per loop test (with the iteration it admits),
  one for the four output statements together with \<^verbatim>\<open>return 0\<close>.  A division by zero, which
  C++ leaves undefined, aborts the run.
\<close>

datatype config =
  FwdLoop int vars
| BwdLoop int vars
| Printing vars
| Exited int string
| Aborted error

inductive step :: "config \<Rightarrow> config \<Rightarrow> bool" where
  fwd_iter: "i < 101 \<Longrightarrow> fwd_body i s = Inr s' \<Longrightarrow> step (FwdLoop i s) (FwdLoop (i + 1) s')"
| fwd_abort: "i < 101 \<Longrightarrow> fwd_body i s = Inl err \<Longrightarrow> step (FwdLoop i s) (Aborted err)"
| fwd_done: "\<not> i < 101 \<Longrightarrow> step (FwdLoop i s) (BwdLoop 100 s)"
| bwd_iter: "i > 0 \<Longrightarrow> bwd_body i s = Inr s' \<Longrightarrow> step (BwdLoop i s) (BwdLoop (i - 1) s')"
| bwd_abort: "i > 0 \<Longrightarrow> bwd_body i s = Inl err \<Longrightarrow> step (BwdLoop i s) (Aborted err)"
| bwd_done: "\<not> i > 0 \<Longrightarrow> step (BwdLoop i s) (Printing s)"
| print_return: "step (Printing s) (Exited 0 (report s))"

code_pred step .

definition start :: config where
  \<comment> \<open>after the four declarations, entering the first loop with \<^verbatim>\<open>i = 1\<close>\<close>
  "start = FwdLoop 1 init"

fun halted :: "config \<Rightarrow> bool" where
  "halted (Exited n out) = True"
| "halted (Aborted err) = True"
| "halted c = False"

fun remaining :: "config \<Rightarrow> nat" where
  \<comment> \<open>a bound on the number of transitions still to come\<close>
  "remaining (FwdLoop i s) = nat (101 - i) + 103"
| "remaining (BwdLoop i s) = nat i + 2"
| "remaining (Printing s) = 1"
| "remaining (Exited n out) = 0"
| "remaining (Aborted err) = 0"

section \<open>Reference computations\<close>

text \<open>
  The sums as the specification describes them, to compare the program with: one step of each
  accumulator as a function without failure, the loop that only records its variable, the
  loops over a single accumulator, and the same loops in exact rational arithmetic.
\<close>

definition zero :: fp where
  "zero = Finite 0 0"

definition float_step :: "int \<Rightarrow> fp \<Rightarrow> fp" where
  "float_step n acc =
     fcvt binary32 (fadd binary64 (fcvt binary64 acc)
       (fdiv binary64 (fp_of_int binary64 1) (fp_of_int binary64 n)))"

definition double_step :: "int \<Rightarrow> fp \<Rightarrow> fp" where
  "double_step n acc = fadd binary64 acc (fdiv binary64 (fp_of_int binary64 1) (fp_of_int binary64 n))"

definition float_quotient :: "int \<Rightarrow> fp" where
  \<comment> \<open>\<open>1 / n\<close> as a division of \<^verbatim>\<open>float\<close> operands: \<^verbatim>\<open>1.0f / (float) n\<close>\<close>
  "float_quotient n = fdiv binary32 (fp_of_int binary32 1) (fp_of_int binary32 n)"

definition record_index :: "int \<Rightarrow> int list \<Rightarrow> error + int list" where
  \<comment> \<open>a loop body that only notes the value of the loop variable\<close>
  "record_index i tr = Inr (tr @ [i])"

definition float_only :: "int \<Rightarrow> fp \<Rightarrow> error + fp" where
  "float_only i f = add_float f i"

definition double_only :: "int \<Rightarrow> fp \<Rightarrow> error + fp" where
  "double_only i d = add_double d i"

definition exact_body :: "int \<Rightarrow> rat \<Rightarrow> error + rat" where
  \<comment> \<open>\<^verbatim>\<open>acc += 1.0 / i\<close> over the rational numbers\<close>
  "exact_body i q = (if i = 0 then Inl DivisionByZero else Inr (q + 1 / of_int i))"

section \<open>The rounding is to nearest\<close>

text \<open>
  The rounding function in general: \<open>round_even\<close> returns a nearest integer, the even one
  of two; \<open>ilog2\<close> brackets the ratio between two powers of two, so that the significand
  has the digits of the format; and a finite result of \<open>fround\<close> is within half a unit in the
  last place of the exact ratio.
\<close>

lemma round_even_remainder:
  assumes "0 < d"
  obtains r where "0 \<le> r" and "r < d"
    and "2 * r \<le> d \<and> round_even n d * d - n = - r \<or>
         d \<le> 2 * r \<and> round_even n d * d - n = d - r"
    and "2 * r = d \<Longrightarrow> even (round_even n d)"
proof -
  define q r where "q = n div d" and "r = n mod d"
  have n: "n = q * d + r" by (simp add: q_def r_def)
  have a: "q * d - n = - r" using n by simp
  have b: "(q + 1) * d - n = d - r" using n by (simp add: algebra_simps)
  have r: "0 \<le> r" "r < d" using assms by (simp_all add: r_def)
  consider "2 * r < d" "round_even n d = q" | "d < 2 * r" "round_even n d = q + 1"
    | "2 * r = d" "even q" "round_even n d = q" | "2 * r = d" "odd q" "round_even n d = q + 1"
    by (cases "2 * r < d"; cases "d < 2 * r"; cases "even q")
      (simp_all add: round_even_def Let_def q_def r_def)
  then show thesis
  proof cases
    case 1
    with a r that [of r] show ?thesis by simp
  next
    case 2
    with b r that [of r] show ?thesis by simp
  next
    case 3
    with a r that [of r] show ?thesis by simp
  next
    case 4
    with b r that [of r] show ?thesis by simp
  qed
qed

lemma round_even_nearest:
  assumes "0 < d"
  shows "2 * \<bar>round_even n d * d - n\<bar> \<le> d"
proof -
  obtain r where "0 \<le> r" "r < d"
    "2 * r \<le> d \<and> round_even n d * d - n = - r \<or>
     d \<le> 2 * r \<and> round_even n d * d - n = d - r"
    using round_even_remainder [OF assms, of n] by blast
  then show ?thesis by auto
qed

lemma round_even_tie:
  assumes "0 < d" and "2 * \<bar>round_even n d * d - n\<bar> = d"
  shows "even (round_even n d)"
proof -
  obtain r where "0 \<le> r" "r < d"
    "2 * r \<le> d \<and> round_even n d * d - n = - r \<or>
     d \<le> 2 * r \<and> round_even n d * d - n = d - r"
    "2 * r = d \<Longrightarrow> even (round_even n d)"
    using round_even_remainder [OF assms(1), of n] by blast
  then show ?thesis using assms(2) by auto
qed

lemma bitlen_nonneg: "0 \<le> bitlen n"
  by (induction n rule: bitlen.induct) (simp add: bitlen.simps)

lemma bitlen_bounds:
  "0 < n \<Longrightarrow> 2 ^ nat (bitlen n - 1) \<le> n \<and> n < 2 ^ nat (bitlen n)"
proof (induction n rule: bitlen.induct)
  case (1 n)
  show ?case
  proof (cases "n = 1")
    case True
    then show ?thesis by (simp add: bitlen.simps [of 1] bitlen.simps [of 0])
  next
    case False
    with "1.prems" have h: "0 < n div 2" by simp
    have ih: "2 ^ nat (bitlen (n div 2) - 1) \<le> n div 2 \<and> n div 2 < 2 ^ nat (bitlen (n div 2))"
      using "1.IH" "1.prems" h by simp
    have pos: "1 \<le> bitlen (n div 2)"
      using h bitlen_nonneg [of "n div 2 div 2"] by (simp add: bitlen.simps [of "n div 2"])
    have b: "bitlen n = 1 + bitlen (n div 2)" using "1.prems" by (simp add: bitlen.simps [of n])
    have e1: "nat (bitlen n - 1) = Suc (nat (bitlen (n div 2) - 1))" using b pos by simp
    have e2: "nat (bitlen n) = Suc (nat (bitlen (n div 2)))" using b pos by simp
    show ?thesis unfolding e1 e2 using ih by auto
  qed
qed


lemma ilog2_bounds:
  assumes "0 < a" and "0 < b"
  shows "of_int b * 2 powi ilog2 a b \<le> (of_int a :: rat) \<and>
         (of_int a :: rat) < of_int b * 2 powi (ilog2 a b + 1)"
proof -
  define la lb l where "la = bitlen a" and "lb = bitlen b" and "l = la - lb"
  have pa: "1 \<le> la" using assms(1) bitlen_nonneg [of "a div 2"]
    by (simp add: la_def bitlen.simps [of a])
  have pb: "1 \<le> lb" using assms(2) bitlen_nonneg [of "b div 2"]
    by (simp add: lb_def bitlen.simps [of b])
  have ia: "2 ^ nat (la - 1) \<le> a" "a < 2 ^ nat la"
    using bitlen_bounds [OF assms(1)] by (simp_all add: la_def)
  have ib: "2 ^ nat (lb - 1) \<le> b" "b < 2 ^ nat lb"
    using bitlen_bounds [OF assms(2)] by (simp_all add: lb_def)
  have ra: "2 powi (la - 1) \<le> (of_int a :: rat)" "(of_int a :: rat) < 2 powi la"
  proof -
    have "(of_int (2 ^ nat (la - 1)) :: rat) \<le> of_int a" using ia(1) by (simp only: of_int_le_iff)
    then show "2 powi (la - 1) \<le> (of_int a :: rat)" using pa by (simp add: power_int_def)
    have "(of_int a :: rat) < of_int (2 ^ nat la)" using ia(2) by (simp only: of_int_less_iff)
    then show "(of_int a :: rat) < 2 powi la" using pa by (simp add: power_int_def)
  qed
  have rb: "2 powi (lb - 1) \<le> (of_int b :: rat)" "(of_int b :: rat) < 2 powi lb"
  proof -
    have "(of_int (2 ^ nat (lb - 1)) :: rat) \<le> of_int b" using ib(1) by (simp only: of_int_le_iff)
    then show "2 powi (lb - 1) \<le> (of_int b :: rat)" using pb by (simp add: power_int_def)
    have "(of_int b :: rat) < of_int (2 ^ nat lb)" using ib(2) by (simp only: of_int_less_iff)
    then show "(of_int b :: rat) < 2 powi lb" using pb by (simp add: power_int_def)
  qed
  have test: "(if 0 \<le> l then b * 2 ^ nat l \<le> a else b \<le> a * 2 ^ nat (- l)) \<longleftrightarrow>
      of_int b * 2 powi l \<le> (of_int a :: rat)"
  proof (cases "0 \<le> l")
    case True
    have "b * 2 ^ nat l \<le> a \<longleftrightarrow> (of_int (b * 2 ^ nat l) :: rat) \<le> of_int a"
      by (simp only: of_int_le_iff)
    then show ?thesis using True by (simp add: power_int_def)
  next
    case False
    have "b \<le> a * 2 ^ nat (- l) \<longleftrightarrow> (of_int b :: rat) \<le> of_int (a * 2 ^ nat (- l))"
      by (simp only: of_int_le_iff)
    then show ?thesis using False by (simp add: power_int_def field_simps)
  qed
  have up: "(of_int a :: rat) < of_int b * 2 powi (l + 1)"
  proof -
    have "(of_int a :: rat) < 2 powi la" by (rule ra(2))
    also have "(2::rat) powi la = 2 powi (lb - 1) * 2 powi (l + 1)"
      by (simp add: l_def power_int_add [symmetric])
    also have "\<dots> \<le> of_int b * 2 powi (l + 1)"
      using rb(1) by (simp add: mult_right_mono)
    finally show ?thesis .
  qed
  have low: "of_int b * 2 powi (l - 1) \<le> (of_int a :: rat)"
  proof -
    have "of_int b * 2 powi (l - 1) \<le> 2 powi lb * (2::rat) powi (l - 1)"
      using rb(2) by (simp add: mult_right_mono)
    also have "\<dots> = 2 powi (la - 1)"
      by (simp add: l_def power_int_add [symmetric])
    also have "\<dots> \<le> of_int a" by (rule ra(1))
    finally show ?thesis .
  qed
  have il: "ilog2 a b =
      (if (if 0 \<le> l then b * 2 ^ nat l \<le> a else b \<le> a * 2 ^ nat (- l)) then l else l - 1)"
    unfolding ilog2_def Let_def l_def la_def lb_def ..
  show ?thesis
  proof (cases "of_int b * 2 powi l \<le> (of_int a :: rat)")
    case True
    then have "ilog2 a b = l" by (simp only: il test if_True)
    then show ?thesis using True up by simp
  next
    case False
    then have "ilog2 a b = l - 1" by (simp only: il test if_False)
    then show ?thesis using False low by simp
  qed
qed


lemma valof_Finite: "valof (Finite m e) = Some (of_int m * 2 powi e)"
  by (simp add: power_int_def field_simps)

lemma round_even_scaled:
  assumes "0 < b" and "0 \<le> n"
  shows "\<bar>of_int (if 0 \<le> e then round_even n (b * 2 ^ nat e) else round_even (n * 2 ^ nat (- e)) b)
           * 2 powi e - of_int n / (of_int b :: rat)\<bar> \<le> 2 powi e / 2"
proof (cases "0 \<le> e")
  case True
  define d where "d = b * 2 ^ nat e"
  define m where "m = round_even n d"
  have d: "0 < d" using assms(1) by (simp add: d_def)
  have "2 * \<bar>m * d - n\<bar> \<le> d" unfolding m_def using d by (rule round_even_nearest)
  then have "(of_int (2 * \<bar>m * d - n\<bar>) :: rat) \<le> of_int d" by (simp only: of_int_le_iff)
  then have "2 * \<bar>of_int m * of_int d - (of_int n :: rat)\<bar> \<le> of_int d" by simp
  moreover have dd: "(of_int d :: rat) = of_int b * 2 powi e"
    using True by (simp add: d_def power_int_def)
  moreover have "(0::rat) < of_int b" using assms(1) by simp
  ultimately have "\<bar>of_int m * 2 powi e - of_int n / (of_int b :: rat)\<bar> \<le> 2 powi e / 2"
    by (simp add: field_simps abs_le_iff)
  then show ?thesis using True by (simp add: m_def d_def)
next
  case False
  define k where "k = nat (- e)"
  define m where "m = round_even (n * 2 ^ k) b"
  have "2 * \<bar>m * b - n * 2 ^ k\<bar> \<le> b" unfolding m_def using assms(1) by (rule round_even_nearest)
  then have "(of_int (2 * \<bar>m * b - n * 2 ^ k\<bar>) :: rat) \<le> of_int b" by (simp only: of_int_le_iff)
  then have bound: "\<bar>of_int m * of_int b - (of_int n :: rat) * 2 ^ k\<bar> \<le> of_int b / 2" by simp
  have pk: "(2::rat) powi e = 1 / 2 ^ k"
    using False by (simp add: k_def power_int_def field_simps)
  have bpos: "(0::rat) < of_int b" using assms(1) by simp
  have "of_int m * 2 powi e - of_int n / (of_int b :: rat) =
      (of_int m * of_int b - of_int n * 2 ^ k) / (of_int b * 2 ^ k)"
    using bpos by (simp add: pk field_simps)
  then have "\<bar>of_int m * 2 powi e - of_int n / (of_int b :: rat)\<bar> =
      \<bar>of_int m * of_int b - of_int n * 2 ^ k\<bar> / (of_int b * 2 ^ k)"
    using bpos by (simp add: abs_mult)
  also have "\<dots> \<le> (of_int b / 2) / (of_int b * 2 ^ k)"
    using bound bpos by (intro divide_right_mono) simp_all
  also have "\<dots> = 2 powi e / 2" using bpos by (simp add: pk)
  finally show ?thesis using False by (simp add: m_def k_def)
qed

lemma fround_nearest:
  assumes "0 < b" and "a \<noteq> 0" and "0 < prec fm" and "fround fm a b = Finite m e"
  shows "\<exists>v. valof (Finite m e) = Some v \<and>
           \<bar>v - of_int a / of_int b\<bar>
             \<le> 2 powi max (ilog2 \<bar>a\<bar> b - (int (prec fm) - 1)) (elow fm) / 2"
proof -
  define e0 where "e0 = max (ilog2 \<bar>a\<bar> b - (int (prec fm) - 1)) (elow fm)"
  define m0 where "m0 = (if 0 \<le> e0 then round_even \<bar>a\<bar> (b * 2 ^ nat e0)
                 else round_even (\<bar>a\<bar> * 2 ^ nat (- e0)) b)"
  have near: "\<bar>of_int m0 * 2 powi e0 - of_int \<bar>a\<bar> / (of_int b :: rat)\<bar> \<le> 2 powi e0 / 2"
    unfolding m0_def using assms(1) by (rule round_even_scaled) simp
  have p2: "(2::int) ^ prec fm = 2 * 2 ^ (prec fm - 1)"
    using assms(3) by (cases "prec fm") simp_all
  have val: "(of_int m * 2 powi e :: rat) = of_int (sgn a) * (of_int m0 * 2 powi e0)"
  proof (cases "m0 = 2 ^ prec fm")
    case True
    then have "fround fm a b = (if ehigh fm < e0 + 1 then Infinity (a < 0)
        else Finite (sgn a * 2 ^ (prec fm - 1)) (e0 + 1))"
      using assms(2) by (simp add: fround_def Let_def e0_def [symmetric] m0_def [symmetric])
    with assms(4) have "m = sgn a * 2 ^ (prec fm - 1)" "e = e0 + 1"
      by (simp_all split: if_splits)
    then show ?thesis using True p2 by (simp add: power_int_add)
  next
    case False
    then have "fround fm a b = (if m0 = 0 then Finite 0 0
        else if ehigh fm < e0 then Infinity (a < 0) else Finite (sgn a * m0) e0)"
      using assms(2) by (simp add: fround_def Let_def e0_def [symmetric] m0_def [symmetric])
    with assms(4) have "m = 0 \<and> m0 = 0 \<or> m = sgn a * m0 \<and> e = e0"
      by (simp split: if_splits)
    then show ?thesis by auto
  qed
  have "of_int a / (of_int b :: rat) = of_int (sgn a) * (of_int \<bar>a\<bar> / of_int b)"
    by (simp add: sgn_if)
  with val have "\<bar>of_int m * 2 powi e - of_int a / (of_int b :: rat)\<bar> =
      \<bar>of_int (sgn a)\<bar> * \<bar>of_int m0 * 2 powi e0 - of_int \<bar>a\<bar> / (of_int b :: rat)\<bar>"
    by (simp only: right_diff_distrib [symmetric] abs_mult)
  also have "\<dots> = \<bar>of_int m0 * 2 powi e0 - of_int \<bar>a\<bar> / (of_int b :: rat)\<bar>"
    using assms(2) by (simp add: sgn_if)
  finally have "\<bar>of_int m * 2 powi e - of_int a / (of_int b :: rat)\<bar> \<le> 2 powi e0 / 2"
    using near by simp
  moreover have "valof (Finite m e) = Some (of_int m * 2 powi e)" by (rule valof_Finite)
  ultimately show ?thesis unfolding e0_def by blast
qed

section \<open>The arithmetic on known values\<close>

text \<open>
  The rounding on inputs whose IEEE-754 results are known: one third in both formats
  (\<^verbatim>\<open>0x3EAAAAAB\<close> and \<^verbatim>\<open>0x3FD5555555555555\<close>), ties going to the even significand, the
  largest finite \<^verbatim>\<open>float\<close>, overflow to infinity, the smallest subnormal number and underflow
  to zero.
\<close>

lemma one_third_values:
  "fdiv binary32 (fp_of_int binary32 1) (fp_of_int binary32 3) = Finite 0xAAAAAB (- 25)"
  "fdiv binary64 (fp_of_int binary64 1) (fp_of_int binary64 3) = Finite 0x15555555555555 (- 54)"
  by code_simp+

lemma rounding_ties:
  "fp_of_int binary32 16777217 = Finite 8388608 1"
  "fp_of_int binary32 16777219 = Finite 8388610 1"
  "fp_of_int binary32 (- 16777219) = Finite (- 8388610) 1"
  "fp_of_int binary32 33554431 = Finite 8388608 2"
  by code_simp+

lemma range_limits:
  "fp_of_int binary32 (2 ^ 128 - 2 ^ 104) = Finite 16777215 104"
  "fp_of_int binary32 (2 ^ 128 - 2 ^ 103) = Infinity False"
  "fround binary32 1 (2 ^ 149) = Finite 1 (- 149)"
  "fround binary32 3 (2 ^ 150) = Finite 2 (- 149)"
  "fround binary32 1 (2 ^ 150) = Finite 0 0"
  by code_simp+

lemma show_g_examples:
  "show_g (Finite 125 (- 6)) = ''1.95312''"
  "show_g (Finite 1999999 (- 1)) = ''1e+06''"
  "show_g (Finite 1 (- 14)) = ''6.10352e-05''"
  "show_g (Finite (- 3) (- 1)) = ''-1.5''"
  "show_g (Finite 100 0) = ''100''"
  "show_g (Finite 1 (- 10)) = ''0.000976562''"
  by code_simp+

section \<open>The loops as folds\<close>

lemma loop_up_fold:
  assumes "\<And>i s. lo \<le> i \<Longrightarrow> i < 101 \<Longrightarrow> body i s = Inr (g i s)"
  shows "loop_up body lo s = Inr (fold g [lo..100] s)"
  using assms
proof (induction body lo s rule: loop_up.induct)
  case (1 body i s)
  show ?case
  proof (cases "i < 101")
    case True
    then have b: "body i s = Inr (g i s)" using "1.prems" by simp
    have "loop_up body (i + 1) (g i s) = Inr (fold g [i + 1..100] (g i s))"
      using "1.IH" [OF True b] "1.prems" by simp
    moreover have "[i..100] = i # [i + 1..100]" using True by (simp add: upto_rec1)
    ultimately show ?thesis using True b by (simp add: loop_up.simps [of body i s])
  next
    case False
    then show ?thesis by (simp add: loop_up.simps [of body i s])
  qed
qed

lemma loop_down_fold:
  assumes "\<And>i s. 0 < i \<Longrightarrow> i \<le> hi \<Longrightarrow> body i s = Inr (g i s)"
  shows "loop_down body hi s = Inr (fold g (rev [1..hi]) s)"
  using assms
proof (induction body hi s rule: loop_down.induct)
  case (1 body i s)
  show ?case
  proof (cases "i > 0")
    case True
    then have b: "body i s = Inr (g i s)" using "1.prems" by simp
    have "loop_down body (i - 1) (g i s) = Inr (fold g (rev [1..i - 1]) (g i s))"
      using "1.IH" [OF True b] "1.prems" by simp
    moreover have "[1..i] = [1..i - 1] @ [i]" using True by (simp add: upto_rec2)
    ultimately show ?thesis using True b by (simp add: loop_down.simps [of body i s])
  next
    case False
    then show ?thesis by (simp add: loop_down.simps [of body i s])
  qed
qed

lemma init_zero: "init = \<lparr>f1 = zero, f2 = zero, dub1 = zero, dub2 = zero\<rparr>"
  by (simp add: init_def zero_def fp_of_int_def fround_def fround_dy_def)

lemma recip_nonzero:
  "i \<noteq> 0 \<Longrightarrow> recip i = Inr (fdiv binary64 (fp_of_int binary64 1) (fp_of_int binary64 i))"
  by (simp add: recip_def)

lemma add_float_step: "i \<noteq> 0 \<Longrightarrow> add_float f i = Inr (float_step i f)"
  by (simp add: add_float_def float_step_def recip_nonzero)

lemma add_double_step: "i \<noteq> 0 \<Longrightarrow> add_double d i = Inr (double_step i d)"
  by (simp add: add_double_def double_step_def recip_nonzero)

lemma fwd_body_step:
  "i \<noteq> 0 \<Longrightarrow> fwd_body i s = Inr (s\<lparr>f1 := float_step i (f1 s), dub1 := double_step i (dub1 s)\<rparr>)"
  by (simp add: fwd_body_def add_float_step add_double_step)

lemma bwd_body_step:
  "i \<noteq> 0 \<Longrightarrow> bwd_body i s = Inr (s\<lparr>f2 := float_step i (f2 s), dub2 := double_step i (dub2 s)\<rparr>)"
  by (simp add: bwd_body_def add_float_step add_double_step)

lemma fold_fwd_fields:
  "fold (\<lambda>i s. s\<lparr>f1 := F i (f1 s), dub1 := D i (dub1 s)\<rparr>) xs s =
   s\<lparr>f1 := fold F xs (f1 s), dub1 := fold D xs (dub1 s)\<rparr>"
  by (induction xs arbitrary: s) simp_all

lemma fold_bwd_fields:
  "fold (\<lambda>i s. s\<lparr>f2 := F i (f2 s), dub2 := D i (dub2 s)\<rparr>) xs s =
   s\<lparr>f2 := fold F xs (f2 s), dub2 := fold D xs (dub2 s)\<rparr>"
  by (induction xs arbitrary: s) simp_all

lemma fwd_loop_fold:
  "loop_up fwd_body 1 s =
   Inr (s\<lparr>f1 := fold float_step [1..100] (f1 s), dub1 := fold double_step [1..100] (dub1 s)\<rparr>)"
proof -
  have "loop_up fwd_body 1 s =
        Inr (fold (\<lambda>i s. s\<lparr>f1 := float_step i (f1 s), dub1 := double_step i (dub1 s)\<rparr>) [1..100] s)"
    by (rule loop_up_fold) (simp add: fwd_body_step)
  then show ?thesis by (simp only: fold_fwd_fields)
qed

lemma bwd_loop_fold:
  "loop_down bwd_body 100 s =
   Inr (s\<lparr>f2 := fold float_step (rev [1..100]) (f2 s),
          dub2 := fold double_step (rev [1..100]) (dub2 s)\<rparr>)"
proof -
  have "loop_down bwd_body 100 s =
        Inr (fold (\<lambda>i s. s\<lparr>f2 := float_step i (f2 s), dub2 := double_step i (dub2 s)\<rparr>)
               (rev [1..100]) s)"
    by (rule loop_down_fold) (simp add: bwd_body_step)
  then show ?thesis by (simp only: fold_bwd_fields)
qed

lemma run_loops_folds:
  "run_loops =
     Inr \<lparr>f1 = fold float_step [1..100] zero, f2 = fold float_step (rev [1..100]) zero,
          dub1 = fold double_step [1..100] zero, dub2 = fold double_step (rev [1..100]) zero\<rparr>"
  by (simp add: run_loops_def fwd_loop_fold bwd_loop_fold init_zero)

text \<open>
  C1.  The four accumulators start from \<open>0.0\<close>, and the two loops leave in them the
  left-to-right folds of adding \<open>1 / n\<close>: over \<open>n = 1, 2, \<dots>, 100\<close> for the forward pair and
  over \<open>n = 100, 99, \<dots>, 1\<close> for the backward pair, once with the \<^verbatim>\<open>float\<close> step and once
  with the \<^verbatim>\<open>double\<close> step.
\<close>

theorem sums_are_folds:
  "init = \<lparr>f1 = zero, f2 = zero, dub1 = zero, dub2 = zero\<rparr> \<and>
   run_loops =
     Inr \<lparr>f1 = fold float_step [1..100] zero, f2 = fold float_step (rev [1..100]) zero,
          dub1 = fold double_step [1..100] zero, dub2 = fold double_step (rev [1..100]) zero\<rparr>"
  using init_zero run_loops_folds by simp

section \<open>The values of the sums\<close>

lemma float_forward_value: "fold float_step [1..100] zero = Finite 10878720 (- 21)"
  by code_simp

lemma float_backward_value: "fold float_step (rev [1..100]) zero = Finite 10878718 (- 21)"
  by code_simp

lemma double_forward_value: "fold double_step [1..100] zero = Finite 5840467863867971 (- 50)"
  by code_simp

lemma double_backward_value: "fold double_step (rev [1..100]) zero = Finite 5840467863867972 (- 50)"
  by code_simp

lemma run_loops_value:
  "run_loops = Inr \<lparr>f1 = Finite 10878720 (- 21), f2 = Finite 10878718 (- 21),
     dub1 = Finite 5840467863867971 (- 50), dub2 = Finite 5840467863867972 (- 50)\<rparr>"
  using run_loops_folds
  by (simp only: float_forward_value float_backward_value double_forward_value
      double_backward_value)

lemma float_difference_value:
  "fsub binary32 (Finite 10878720 (- 21)) (Finite 10878718 (- 21)) = Finite 8388608 (- 43)"
  by code_simp

lemma double_difference_value:
  "fsub binary64 (Finite 5840467863867971 (- 50)) (Finite 5840467863867972 (- 50)) =
   Finite (- 4503599627370496) (- 102)"
  by code_simp

section \<open>The precision of the terms\<close>

lemma recip_three: "recip 3 = Inr (Finite 6004799503160661 (- 54))"
  by code_simp

lemma float_quotient_three: "float_quotient 3 = Finite 11184811 (- 25)"
  by code_simp

lemma float_quotient_three_widened:
  "fcvt binary64 (Finite 11184811 (- 25)) = Finite 6004799682117632 (- 54)"
  by code_simp

lemma recip_accurate:
  "\<forall>n \<in> set [1..100].
     (case recip n of
        Inl err \<Rightarrow> False
      | Inr t \<Rightarrow>
          (case valof t of
             None \<Rightarrow> False
           | Some v \<Rightarrow> \<bar>v - 1 / of_int n\<bar> \<le> 1 / of_int n / 2 ^ 53))"
  by code_simp

lemma descending_float_steps:
  "add_float zero 100 = Inr (Finite 10737418 (- 30))"
  "add_float (Finite 10737418 (- 30)) 99 = Inr (Finite 10791648 (- 29))"
  "add_float (Finite 10791648 (- 29)) 98 = Inr (Finite 16269923 (- 29))"
  by code_simp+

lemma float_quotient_step:
  "fadd binary32 (Finite 10791648 (- 29)) (float_quotient 98) = Finite 16269922 (- 29)"
  by code_simp

text \<open>
  C2, as stated, fails.  The term \<^verbatim>\<open>1.0 / i\<close> is not a \<^verbatim>\<open>float\<close> division: at \<open>n = 3\<close> the
  program's term is the \<^verbatim>\<open>double\<close> \<open>6004799503160661 / 2 ^ 54\<close>, while the quotient of
  \<^verbatim>\<open>float\<close> operands is \<open>11184811 / 2 ^ 25\<close>, a different number, also once widened to
  \<^verbatim>\<open>double\<close>.  The accumulator shows it: in the descending loop \<^verbatim>\<open>f2\<close> is
  \<open>10791648 / 2 ^ 29\<close> after \<open>i = 100\<close> and \<open>i = 99\<close>, and the statement \<^verbatim>\<open>f2 += 1.0 / i\<close>
  at \<open>i = 98\<close> makes it \<open>16269923 / 2 ^ 29\<close>, where adding the \<^verbatim>\<open>float\<close> quotient in
  \<^verbatim>\<open>float\<close> arithmetic would give \<open>16269922 / 2 ^ 29\<close>.
\<close>

theorem float_term_counterexample:
  "recip 3 = Inr (Finite 6004799503160661 (- 54)) \<and>
   float_quotient 3 = Finite 11184811 (- 25) \<and>
   valof (Finite 6004799503160661 (- 54)) \<noteq> valof (Finite 11184811 (- 25)) \<and>
   recip 3 \<noteq> Inr (fcvt binary64 (float_quotient 3)) \<and>
   add_float zero 100 = Inr (Finite 10737418 (- 30)) \<and>
   add_float (Finite 10737418 (- 30)) 99 = Inr (Finite 10791648 (- 29)) \<and>
   add_float (Finite 10791648 (- 29)) 98 = Inr (Finite 16269923 (- 29)) \<and>
   fadd binary32 (Finite 10791648 (- 29)) (float_quotient 98) = Finite 16269922 (- 29)"
proof -
  have "valof (Finite 6004799503160661 (- 54)) \<noteq> valof (Finite 11184811 (- 25))"
    by simp
  moreover have "recip 3 \<noteq> Inr (fcvt binary64 (float_quotient 3))"
    unfolding recip_three float_quotient_three float_quotient_three_widened by simp
  ultimately show ?thesis
    using recip_three float_quotient_three descending_float_steps float_quotient_step
    by blast
qed

text \<open>
  C2, amended.  For every \<open>n\<close> in \<open>1..100\<close> and in both loop directions, the term \<open>1 / n\<close> is
  the quotient of \<^verbatim>\<open>double\<close> operands (within \<open>2\<^sup>-\<^sup>5\<^sup>3\<close> of \<open>1 / n\<close>, relatively); the
  \<^verbatim>\<open>float\<close> accumulator is widened to \<^verbatim>\<open>double\<close>, the term is added in \<^verbatim>\<open>double\<close>, and the
  sum is rounded to \<^verbatim>\<open>float\<close> when it is stored; the \<^verbatim>\<open>double\<close> accumulator receives the
  same term.
\<close>

theorem term_is_double_quotient:
  assumes "1 \<le> n" and "n \<le> 100"
  shows "\<exists>t v. recip n = Inr t \<and>
           t = fdiv binary64 (fp_of_int binary64 1) (fp_of_int binary64 n) \<and>
           valof t = Some v \<and> \<bar>v - 1 / of_int n\<bar> \<le> 1 / of_int n / 2 ^ 53 \<and>
           fwd_body n s = Inr (s\<lparr>f1 := fcvt binary32 (fadd binary64 (fcvt binary64 (f1 s)) t),
                                  dub1 := fadd binary64 (dub1 s) t\<rparr>) \<and>
           bwd_body n s = Inr (s\<lparr>f2 := fcvt binary32 (fadd binary64 (fcvt binary64 (f2 s)) t),
                                  dub2 := fadd binary64 (dub2 s) t\<rparr>)"
proof -
  let ?t = "fdiv binary64 (fp_of_int binary64 1) (fp_of_int binary64 n)"
  have nz: "n \<noteq> 0" using assms by simp
  then have r: "recip n = Inr ?t" by (rule recip_nonzero)
  have "n \<in> set [1..100]" using assms by simp
  with recip_accurate r obtain v
    where "valof ?t = Some v" "\<bar>v - 1 / of_int n\<bar> \<le> 1 / of_int n / 2 ^ 53"
    by (fastforce split: sum.splits option.splits)
  moreover have "fwd_body n s =
      Inr (s\<lparr>f1 := fcvt binary32 (fadd binary64 (fcvt binary64 (f1 s)) ?t),
             dub1 := fadd binary64 (dub1 s) ?t\<rparr>)"
    using nz by (simp add: fwd_body_step float_step_def double_step_def)
  moreover have "bwd_body n s =
      Inr (s\<lparr>f2 := fcvt binary32 (fadd binary64 (fcvt binary64 (f2 s)) ?t),
             dub2 := fadd binary64 (dub2 s) ?t\<rparr>)"
    using nz by (simp add: bwd_body_step float_step_def double_step_def)
  ultimately show ?thesis using r by blast
qed

theorem term_is_double_quotient_witness:
  "(1::int) \<le> 3 \<and> (3::int) \<le> 100 \<and>
   (\<exists>t v. recip 3 = Inr t \<and> valof t = Some v \<and> \<bar>v - 1 / 3\<bar> \<le> 1 / 3 / 2 ^ 53 \<and>
      fwd_body 3 init =
        Inr (init\<lparr>f1 := fcvt binary32 (fadd binary64 (fcvt binary64 (f1 init)) t),
                  dub1 := fadd binary64 (dub1 init) t\<rparr>))"
proof -
  have "(1::int) \<le> 3" and "(3::int) \<le> 100" by simp_all
  from term_is_double_quotient [OF this, of init] show ?thesis by fastforce
qed

section \<open>The differences\<close>

text \<open>
  C3.  The \<^verbatim>\<open>float\<close> sums differ: forward \<open>10878720 / 2\<^sup>2\<^sup>1\<close> (5.1873779296875), backward
  \<open>10878718 / 2\<^sup>2\<^sup>1\<close>, and the printed \<^verbatim>\<open>float\<close> difference \<^verbatim>\<open>f1 - f2\<close> is \<open>2\<^sup>-\<^sup>2\<^sup>0\<close>, not
  zero.
\<close>

theorem float_sums_differ:
  "\<exists>s. run_loops = Inr s \<and> f1 s = Finite 10878720 (- 21) \<and> f2 s = Finite 10878718 (- 21) \<and>
     valof (f1 s) \<noteq> valof (f2 s) \<and>
     fsub binary32 (f1 s) (f2 s) \<noteq> zero \<and>
     valof (fsub binary32 (f1 s) (f2 s)) = Some (1 / 2 ^ 20)"
  by (simp add: run_loops_value float_difference_value zero_def)

text \<open>
  C4.  The \<^verbatim>\<open>double\<close> sums are one unit in the last place apart (\<open>2\<^sup>-\<^sup>5\<^sup>0\<close>), which is less
  in absolute value than the difference \<open>2\<^sup>-\<^sup>2\<^sup>0\<close> of the \<^verbatim>\<open>float\<close> sums; both subtractions
  of the program are exact, so the same holds of the printed differences.
\<close>

theorem double_difference_smaller:
  "\<exists>s x1 x2 d1 d2.
     run_loops = Inr s \<and>
     valof (f1 s) = Some x1 \<and> valof (f2 s) = Some x2 \<and>
     valof (dub1 s) = Some d1 \<and> valof (dub2 s) = Some d2 \<and>
     \<bar>d1 - d2\<bar> < \<bar>x1 - x2\<bar> \<and>
     valof (fsub binary32 (f1 s) (f2 s)) = Some (x1 - x2) \<and>
     valof (fsub binary64 (dub1 s) (dub2 s)) = Some (d1 - d2) \<and>
     x1 - x2 = 1 / 2 ^ 20 \<and> d1 - d2 = - (1 / 2 ^ 50)"
proof -
  let ?s = "\<lparr>f1 = Finite 10878720 (- 21), f2 = Finite 10878718 (- 21),
     dub1 = Finite 5840467863867971 (- 50), dub2 = Finite 5840467863867972 (- 50)\<rparr>"
  let ?x1 = "10878720 / 2 ^ 21 :: rat" and ?x2 = "10878718 / 2 ^ 21 :: rat"
  let ?d1 = "5840467863867971 / 2 ^ 50 :: rat" and ?d2 = "5840467863867972 / 2 ^ 50 :: rat"
  have "valof (f1 ?s) = Some ?x1" "valof (f2 ?s) = Some ?x2"
    "valof (dub1 ?s) = Some ?d1" "valof (dub2 ?s) = Some ?d2"
    by simp_all
  moreover have "?x1 - ?x2 = 1 / 2 ^ 20" "?d1 - ?d2 = - (1 / 2 ^ 50)"
    by simp_all
  moreover from this have "\<bar>?d1 - ?d2\<bar> < \<bar>?x1 - ?x2\<bar>"
    by (simp only:) simp
  moreover have "valof (fsub binary32 (f1 ?s) (f2 ?s)) = Some (?x1 - ?x2)"
    by (simp add: float_difference_value)
  moreover have "valof (fsub binary64 (dub1 ?s) (dub2 ?s)) = Some (?d1 - ?d2)"
    by (simp add: double_difference_value)
  ultimately show ?thesis using run_loops_value by blast
qed

section \<open>The divisors\<close>

lemma fold_snoc: "fold (\<lambda>i tr. tr @ [i]) xs tr = tr @ xs"
  by (induction xs arbitrary: tr) simp_all

lemma fwd_indices: "loop_up record_index 1 [] = Inr [1..100]"
proof -
  have "loop_up record_index 1 [] = Inr (fold (\<lambda>i tr. tr @ [i]) [1..100] [])"
    by (rule loop_up_fold) (simp add: record_index_def)
  then show ?thesis by (simp add: fold_snoc)
qed

lemma bwd_indices: "loop_down record_index 100 [] = Inr (rev [1..100])"
proof -
  have "loop_down record_index 100 [] = Inr (fold (\<lambda>i tr. tr @ [i]) (rev [1..100]) [])"
    by (rule loop_down_fold) (simp add: record_index_def)
  then show ?thesis by (simp add: fold_snoc)
qed

text \<open>
  C5.  The ascending loop runs its body with \<open>i = 1, 2, \<dots>, 100\<close> and the descending loop
  with \<open>i = 100, 99, \<dots>, 1\<close>; none of these is zero, so \<^verbatim>\<open>1.0 / i\<close> yields a value each
  time, and from any accumulators both loops finish without the division by zero that
  \<^verbatim>\<open>1.0 / 0\<close> would be.
\<close>

theorem divisor_never_zero:
  "loop_up record_index 1 [] = Inr [1..100] \<and>
   loop_down record_index 100 [] = Inr (rev [1..100]) \<and>
   (\<forall>i \<in> set [1..100]. i \<noteq> 0 \<and> (\<exists>t. recip i = Inr t)) \<and>
   recip 0 = Inl DivisionByZero \<and>
   (\<forall>s. \<exists>s'. loop_up fwd_body 1 s = Inr s') \<and>
   (\<forall>s. \<exists>s'. loop_down bwd_body 100 s = Inr s')"
  by (simp add: fwd_indices bwd_indices fwd_loop_fold bwd_loop_fold recip_def)

theorem divisor_never_zero_witness:
  "(100::int) \<in> set [1..100] \<and> (100::int) \<noteq> 0 \<and> (\<exists>t. recip 100 = Inr t)"
  using divisor_never_zero by simp

section \<open>The output\<close>

lemma report_value:
  "report \<lparr>f1 = Finite 10878720 (- 21), f2 = Finite 10878718 (- 21),
     dub1 = Finite 5840467863867971 (- 50), dub2 = Finite 5840467863867972 (- 50)\<rparr> =
   ''Float forward: 5.18738, Float backward: 5.18738'' @ endl @
   ''Double forward: 5.18738, Double backward: 5.18738'' @ endl @
   ''Float difference: 9.53674e-07'' @ endl @
   ''Double difference: -8.88178e-16'' @ endl"
  by code_simp

text \<open>
  C7.  The text written to standard output is four lines, each ended by a newline, in this
  order: the \<^verbatim>\<open>float\<close> sums, the \<^verbatim>\<open>double\<close> sums, the \<^verbatim>\<open>float\<close> difference, the
  \<^verbatim>\<open>double\<close> difference, each number in the stream's default format; with the values of
  this run the text is the one given.
\<close>

theorem output_four_lines:
  "\<exists>s. run_loops = Inr s \<and>
     main = Inr (0,
       ''Float forward: '' @ show_g (f1 s) @ '', Float backward: '' @ show_g (f2 s) @ endl @
       ''Double forward: '' @ show_g (dub1 s) @ '', Double backward: '' @ show_g (dub2 s) @ endl @
       ''Float difference: '' @ show_g (fsub binary32 (f1 s) (f2 s)) @ endl @
       ''Double difference: '' @ show_g (fsub binary64 (dub1 s) (dub2 s)) @ endl) \<and>
     main = Inr (0,
       ''Float forward: 5.18738, Float backward: 5.18738'' @ endl @
       ''Double forward: 5.18738, Double backward: 5.18738'' @ endl @
       ''Float difference: 9.53674e-07'' @ endl @
       ''Double difference: -8.88178e-16'' @ endl) \<and>
     count_list (report s) (CHR 0x0A) = 4"
proof -
  let ?s = "\<lparr>f1 = Finite 10878720 (- 21), f2 = Finite 10878718 (- 21),
     dub1 = Finite 5840467863867971 (- 50), dub2 = Finite 5840467863867972 (- 50)\<rparr>"
  have m: "main = Inr (0, report ?s)" unfolding main_def run_loops_value by simp
  have c: "count_list (report ?s) (CHR 0x0A) = 4" unfolding report_value by (simp add: endl_def)
  have t: "main = Inr (0,
       ''Float forward: '' @ show_g (f1 ?s) @ '', Float backward: '' @ show_g (f2 ?s) @ endl @
       ''Double forward: '' @ show_g (dub1 ?s) @ '', Double backward: '' @ show_g (dub2 ?s) @ endl @
       ''Float difference: '' @ show_g (fsub binary32 (f1 ?s) (f2 ?s)) @ endl @
       ''Double difference: '' @ show_g (fsub binary64 (dub1 ?s) (dub2 ?s)) @ endl)"
    unfolding m report_def by simp
  have v: "main = Inr (0,
       ''Float forward: 5.18738, Float backward: 5.18738'' @ endl @
       ''Double forward: 5.18738, Double backward: 5.18738'' @ endl @
       ''Float difference: 9.53674e-07'' @ endl @
       ''Double difference: -8.88178e-16'' @ endl)"
    unfolding m report_value by simp
  show ?thesis using run_loops_value t v c by blast
qed

section \<open>Runs of the transition system\<close>

lemma step_deterministic: "step c a \<Longrightarrow> step c b \<Longrightarrow> a = b"
  by (induction rule: step.induct) (auto elim: step.cases)

lemma halted_no_step: "step c c' \<Longrightarrow> \<not> halted c"
  by (induction rule: step.induct) simp_all

lemma run_confluent:
  "step\<^sup>*\<^sup>* c a \<Longrightarrow> step\<^sup>*\<^sup>* c b \<Longrightarrow> halted b \<Longrightarrow> step\<^sup>*\<^sup>* a b"
proof (induction rule: converse_rtranclp_induct)
  case base
  then show ?case by simp
next
  case (step x y)
  from \<open>step\<^sup>*\<^sup>* x b\<close> show ?case
  proof (cases rule: converse_rtranclpE)
    case base
    with step.hyps(1) step.prems(2) show ?thesis using halted_no_step by blast
  next
    case (step z)
    with \<open>step x y\<close> have "z = y" using step_deterministic by blast
    with step show ?thesis using \<open>halted b\<close> step.IH by blast
  qed
qed

lemma halted_run_end: "step\<^sup>*\<^sup>* a b \<Longrightarrow> halted a \<Longrightarrow> b = a"
  by (induction rule: converse_rtranclp_induct) (auto dest: halted_no_step)

lemma fwd_loop_run_aux:
  "loop_up body i s = Inr s' \<Longrightarrow> body = fwd_body \<Longrightarrow>
   step\<^sup>*\<^sup>* (FwdLoop i s) (BwdLoop 100 s')"
proof (induction body i s rule: loop_up.induct)
  case (1 body i s)
  note [simp] = \<open>body = fwd_body\<close>
  show ?case
  proof (cases "i < 101")
    case True
    with "1.prems" obtain s1
      where b: "fwd_body i s = Inr s1" and l: "loop_up fwd_body (i + 1) s1 = Inr s'"
      by (auto simp: loop_up.simps [of fwd_body i s] split: sum.splits)
    have b': "body i s = Inr s1" and l': "loop_up body (i + 1) s1 = Inr s'"
      using b l by simp_all
    have "step (FwdLoop i s) (FwdLoop (i + 1) s1)" using True b by (rule fwd_iter)
    moreover have "step\<^sup>*\<^sup>* (FwdLoop (i + 1) s1) (BwdLoop 100 s')"
      using "1.IH" [OF True b' l'] by simp
    ultimately show ?thesis by (rule converse_rtranclp_into_rtranclp)
  next
    case False
    with "1.prems" have "s' = s" by (simp add: loop_up.simps [of fwd_body i s])
    then show ?thesis using False fwd_done by blast
  qed
qed

lemma fwd_loop_run:
  "loop_up fwd_body i s = Inr s' \<Longrightarrow> step\<^sup>*\<^sup>* (FwdLoop i s) (BwdLoop 100 s')"
  by (rule fwd_loop_run_aux) simp_all

lemma bwd_loop_run_aux:
  "loop_down body i s = Inr s' \<Longrightarrow> body = bwd_body \<Longrightarrow>
   step\<^sup>*\<^sup>* (BwdLoop i s) (Printing s')"
proof (induction body i s rule: loop_down.induct)
  case (1 body i s)
  note [simp] = \<open>body = bwd_body\<close>
  show ?case
  proof (cases "i > 0")
    case True
    with "1.prems" obtain s1
      where b: "bwd_body i s = Inr s1" and l: "loop_down bwd_body (i - 1) s1 = Inr s'"
      by (auto simp: loop_down.simps [of bwd_body i s] split: sum.splits)
    have b': "body i s = Inr s1" and l': "loop_down body (i - 1) s1 = Inr s'"
      using b l by simp_all
    have "step (BwdLoop i s) (BwdLoop (i - 1) s1)" using True b by (rule bwd_iter)
    moreover have "step\<^sup>*\<^sup>* (BwdLoop (i - 1) s1) (Printing s')"
      using "1.IH" [OF True b' l'] by simp
    ultimately show ?thesis by (rule converse_rtranclp_into_rtranclp)
  next
    case False
    with "1.prems" have "s' = s" by (simp add: loop_down.simps [of bwd_body i s])
    then show ?thesis using False bwd_done by blast
  qed
qed

lemma bwd_loop_run:
  "loop_down bwd_body i s = Inr s' \<Longrightarrow> step\<^sup>*\<^sup>* (BwdLoop i s) (Printing s')"
  by (rule bwd_loop_run_aux) simp_all

lemma run_loops_Inr: "\<exists>s. run_loops = Inr s"
  by (simp add: run_loops_folds)

lemma run_exits: "run_loops = Inr s \<Longrightarrow> step\<^sup>*\<^sup>* start (Exited 0 (report s))"
proof -
  assume r: "run_loops = Inr s"
  then obtain s1
    where a: "loop_up fwd_body 1 init = Inr s1" and b: "loop_down bwd_body 100 s1 = Inr s"
    by (auto simp: run_loops_def split: sum.splits)
  have "step\<^sup>*\<^sup>* start (BwdLoop 100 s1)" unfolding start_def using a by (rule fwd_loop_run)
  also have "step\<^sup>*\<^sup>* (BwdLoop 100 s1) (Printing s)" using b by (rule bwd_loop_run)
  also have "step (Printing s) (Exited 0 (report s))" by (rule print_return)
  finally show ?thesis .
qed

lemma step_decreases: "step c c' \<Longrightarrow> remaining c' < remaining c"
  by (induction rule: step.induct) auto

text \<open>
  C6.  The program takes no input, and its run is determined: any two runs from the start
  that come to an end, end in the same configuration, so with the same exit status and the
  same text on standard output.
\<close>

theorem deterministic_output:
  "step\<^sup>*\<^sup>* start c1 \<Longrightarrow> halted c1 \<Longrightarrow> step\<^sup>*\<^sup>* start c2 \<Longrightarrow> halted c2 \<Longrightarrow> c1 = c2"
  using run_confluent [of start c1 c2] halted_run_end [of c1 c2] by blast

theorem deterministic_output_witness:
  "step\<^sup>*\<^sup>* start (Exited 0 (
     ''Float forward: 5.18738, Float backward: 5.18738'' @ endl @
     ''Double forward: 5.18738, Double backward: 5.18738'' @ endl @
     ''Float difference: 9.53674e-07'' @ endl @
     ''Double difference: -8.88178e-16'' @ endl)) \<and>
   halted (Exited 0 (
     ''Float forward: 5.18738, Float backward: 5.18738'' @ endl @
     ''Double forward: 5.18738, Double backward: 5.18738'' @ endl @
     ''Float difference: 9.53674e-07'' @ endl @
     ''Double difference: -8.88178e-16'' @ endl)) \<and>
   Exited 0 (report \<lparr>f1 = Finite 10878720 (- 21), f2 = Finite 10878718 (- 21),
     dub1 = Finite 5840467863867971 (- 50), dub2 = Finite 5840467863867972 (- 50)\<rparr>) =
   Exited 0 (
     ''Float forward: 5.18738, Float backward: 5.18738'' @ endl @
     ''Double forward: 5.18738, Double backward: 5.18738'' @ endl @
     ''Float difference: 9.53674e-07'' @ endl @
     ''Double difference: -8.88178e-16'' @ endl)"
proof -
  let ?s = "\<lparr>f1 = Finite 10878720 (- 21), f2 = Finite 10878718 (- 21),
     dub1 = Finite 5840467863867971 (- 50), dub2 = Finite 5840467863867972 (- 50)\<rparr>"
  let ?text = "''Float forward: 5.18738, Float backward: 5.18738'' @ endl @
     ''Double forward: 5.18738, Double backward: 5.18738'' @ endl @
     ''Float difference: 9.53674e-07'' @ endl @
     ''Double difference: -8.88178e-16'' @ endl"
  have r1: "step\<^sup>*\<^sup>* start (Exited 0 (report ?s))" using run_loops_value by (rule run_exits)
  then have r2: "step\<^sup>*\<^sup>* start (Exited 0 ?text)" by (simp only: report_value)
  have h1: "halted (Exited 0 (report ?s))" and h2: "halted (Exited 0 ?text)" by simp_all
  from deterministic_output [OF r1 h1 r2 h2] r2 h2 show ?thesis by blast
qed

text \<open>
  C8.  Every run ends, and it ends with exit status 0: no sequence of transitions is
  infinite, and from every configuration that a run from the start can be in, the run goes
  on to \<^verbatim>\<open>return 0\<close> with the text of \<open>main\<close> written.  The program has no parameter and
  reads nothing, so there is no environment for this to depend on.
\<close>

theorem always_exits_zero:
  "wfp (\<lambda>c' c. step c c') \<and>
   (\<exists>out. main = Inr (0, out) \<and> (\<forall>c. step\<^sup>*\<^sup>* start c \<longrightarrow> step\<^sup>*\<^sup>* c (Exited 0 out)))"
proof
  show "wfp (\<lambda>c' c. step c c')"
    by (rule wfp_if_convertible_to_nat [of _ remaining]) (rule step_decreases)
next
  obtain s where r: "run_loops = Inr s" using run_loops_Inr by blast
  then have e: "step\<^sup>*\<^sup>* start (Exited 0 (report s))" by (rule run_exits)
  have "main = Inr (0, report s)" unfolding main_def r by simp
  moreover have "\<forall>c. step\<^sup>*\<^sup>* start c \<longrightarrow> step\<^sup>*\<^sup>* c (Exited 0 (report s))"
    using run_confluent [OF _ e] by simp
  ultimately
  show "\<exists>out. main = Inr (0, out) \<and> (\<forall>c. step\<^sup>*\<^sup>* start c \<longrightarrow> step\<^sup>*\<^sup>* c (Exited 0 out))"
    by blast
qed

theorem always_exits_zero_witness:
  "step\<^sup>*\<^sup>* start start \<and> (\<exists>out. main = Inr (0, out) \<and> step\<^sup>*\<^sup>* start (Exited 0 out))"
  using always_exits_zero by blast

section \<open>One loop for two accumulators\<close>

lemma float_only_fold: "loop_up float_only 1 x = Inr (fold float_step [1..100] x)"
  by (rule loop_up_fold) (simp add: float_only_def add_float_step)

lemma double_only_fold: "loop_up double_only 1 x = Inr (fold double_step [1..100] x)"
  by (rule loop_up_fold) (simp add: double_only_def add_double_step)

lemma float_only_fold_down: "loop_down float_only 100 x = Inr (fold float_step (rev [1..100]) x)"
  by (rule loop_down_fold) (simp add: float_only_def add_float_step)

lemma double_only_fold_down:
  "loop_down double_only 100 x = Inr (fold double_step (rev [1..100]) x)"
  by (rule loop_down_fold) (simp add: double_only_def add_double_step)

text \<open>
  C9.  Each loop of the program, which updates a \<^verbatim>\<open>float\<close> and a \<^verbatim>\<open>double\<close> accumulator in
  one body, leaves in each what a loop over that accumulator alone leaves, from any values
  of the accumulators, and does not touch the other pair; so the four sums of the program
  are those of four separate loops from zero.
\<close>

theorem interleaving_independent:
  "(\<exists>x y. loop_up float_only 1 (f1 s) = Inr x \<and> loop_up double_only 1 (dub1 s) = Inr y \<and>
          loop_up fwd_body 1 s = Inr (s\<lparr>f1 := x, dub1 := y\<rparr>)) \<and>
   (\<exists>x y. loop_down float_only 100 (f2 s) = Inr x \<and> loop_down double_only 100 (dub2 s) = Inr y \<and>
          loop_down bwd_body 100 s = Inr (s\<lparr>f2 := x, dub2 := y\<rparr>)) \<and>
   (\<exists>x1 y1 x2 y2.
      loop_up float_only 1 zero = Inr x1 \<and> loop_up double_only 1 zero = Inr y1 \<and>
      loop_down float_only 100 zero = Inr x2 \<and> loop_down double_only 100 zero = Inr y2 \<and>
      run_loops = Inr \<lparr>f1 = x1, f2 = x2, dub1 = y1, dub2 = y2\<rparr>)"
  by (simp add: float_only_fold double_only_fold float_only_fold_down double_only_fold_down
      fwd_loop_fold bwd_loop_fold run_loops_def init_zero)

section \<open>The sums in exact arithmetic\<close>

lemma fold_add_sum_list:
  "fold (\<lambda>i q. q + g i) xs (q::rat) = q + sum_list (map g xs)"
  by (induction xs arbitrary: q) (simp_all add: add.assoc)

lemma exact_up: "loop_up exact_body 1 0 = Inr (\<Sum>n = 1..100. 1 / of_int n)"
proof -
  have "loop_up exact_body 1 0 = Inr (fold (\<lambda>i q. q + 1 / of_int i) [1..100] 0)"
    by (rule loop_up_fold) (simp add: exact_body_def)
  also have "fold (\<lambda>i q. q + 1 / of_int i) [1..100] (0::rat) =
      sum_list (map (\<lambda>i. 1 / of_int i) [1..100])"
    by (simp add: fold_add_sum_list)
  also have "\<dots> = (\<Sum>n = 1..100. 1 / of_int n)"
    by (simp add: sum_list_distinct_conv_sum_set)
  finally show ?thesis .
qed

lemma exact_down: "loop_down exact_body 100 0 = Inr (\<Sum>n = 1..100. 1 / of_int n)"
proof -
  have "loop_down exact_body 100 0 = Inr (fold (\<lambda>i q. q + 1 / of_int i) (rev [1..100]) 0)"
    by (rule loop_down_fold) (simp add: exact_body_def)
  also have "fold (\<lambda>i q. q + 1 / of_int i) (rev [1..100]) (0::rat) =
      sum_list (map (\<lambda>i. 1 / of_int i) (rev [1..100]))"
    by (simp only: fold_add_sum_list)
  also have "\<dots> = (\<Sum>n = 1..100. 1 / of_int n)"
    by (simp add: rev_map [symmetric] sum_list_distinct_conv_sum_set)
  finally show ?thesis .
qed

text \<open>
  C10.  Over the rational numbers the same two loops give the same sum, the harmonic number
  \<open>H\<^sub>1\<^sub>0\<^sub>0\<close>, in ascending and in descending order.
\<close>

theorem exact_sums_agree:
  "\<exists>h. loop_up exact_body 1 0 = Inr h \<and> loop_down exact_body 100 0 = Inr h \<and>
       h = (\<Sum>n = 1..100. 1 / of_int n)"
  by (simp add: exact_up exact_down)

end
